theory Spec2Isabelle
  imports Complex_Main "HOL-Library.Word"
begin

section \<open>JavaScript strings\<close>

text \<open>
  A JavaScript string is a sequence of UTF-16 code units; \<open>length\<close>, \<open>split\<close>,
  \<open>includes\<close> and \<open>trim\<close> all work on code units. Subtitle text is mostly Chinese,
  so the model keeps the full 16-bit range. \<open>lit\<close> embeds an ASCII literal.
\<close>

type_synonym jschar = "16 word"
type_synonym jsstring = "jschar list"

definition lit :: "string \<Rightarrow> jsstring" where
  "lit s = map of_char s"

text \<open>The separator token \<open>">>>"\<close> and the line break \<open>"\n"\<close> of the source.\<close>

definition SEP :: jsstring where
  "SEP = [0x3E, 0x3E, 0x3E]"

definition NL :: jsstring where
  "NL = [0x0A]"

text \<open>
  \<open>String.prototype.trim\<close> strips WhiteSpace and LineTerminator code points from both
  ends (ECMAScript: TAB, VT, FF, SP, NBSP, ZWNBSP, category Zs, LF, CR, LS, PS).
\<close>

definition isWhiteSpace :: "jschar \<Rightarrow> bool" where
  "isWhiteSpace c \<longleftrightarrow>
     c \<in> {0x0009, 0x000A, 0x000B, 0x000C, 0x000D, 0x0020, 0x00A0, 0x1680,
          0x2028, 0x2029, 0x202F, 0x205F, 0x3000, 0xFEFF}
     \<or> (0x2000 \<le> c \<and> c \<le> 0x200A)"

definition trim :: "jsstring \<Rightarrow> jsstring" where
  "trim s = rev (dropWhile isWhiteSpace (rev (dropWhile isWhiteSpace s)))"

text \<open>\<open>s.includes(sub)\<close>: \<open>sub\<close> occurs in \<open>s\<close> at some position.\<close>

fun includes_js :: "jsstring \<Rightarrow> jsstring \<Rightarrow> bool" where
  "includes_js [] sub = (sub = [])"
| "includes_js (c # cs) sub = (take (length sub) (c # cs) = sub \<or> includes_js cs sub)"

text \<open>
  \<open>s.split(sep)\<close> with a string separator: the pieces between the occurrences of
  \<open>sep\<close>, found left to right without overlap. The result is never empty; the empty
  separator cuts the string into its code units.
\<close>

fun split_ne :: "jsstring \<Rightarrow> jsstring \<Rightarrow> jsstring list" where
  "split_ne sep [] = [[]]"
| "split_ne sep (c # cs) =
     (if sep \<noteq> [] \<and> take (length sep) (c # cs) = sep
      then [] # split_ne sep (drop (length sep) (c # cs))
      else (case split_ne sep cs of
              [] \<Rightarrow> [[c]]
            | p # ps \<Rightarrow> (c # p) # ps))"

definition split :: "jsstring \<Rightarrow> jsstring \<Rightarrow> jsstring list" where
  "split s sep = (if sep = [] then map (\<lambda>c. [c]) s else split_ne sep s)"

text \<open>\<open>parts.join(sep)\<close>.\<close>

fun join :: "jsstring list \<Rightarrow> jsstring \<Rightarrow> jsstring" where
  "join [] sep = []"
| "join [x] sep = x"
| "join (x # y # ys) sep = x @ sep @ join (y # ys) sep"

text \<open>
  \<open>(n).toString()\<close> on a non-negative integer below \<open>10^21\<close>: its decimal digits,
  no sign, no leading zero.
\<close>

definition digit :: "nat \<Rightarrow> jschar" where
  "digit d = of_nat (48 + d)"

fun toString :: "nat \<Rightarrow> jsstring" where
  "toString n = (if n < 10 then [digit n] else toString (n div 10) @ [digit (n mod 10)])"

declare toString.simps [simp del]

section \<open>Subtitle entries\<close>

text \<open>
  An entry as the subtitle parser yields it. The record is extensible: whatever further
  fields the parser attaches travel in the record's extension slot, which the spread
  \<open>{...item, text: ...}\<close> copies along with the named ones. The parser's \<open>id\<close> field
  is \<open>seqId\<close> here, \<open>id\<close> being the identity function of HOL.
\<close>

record entry =
  seqId :: jsstring
  startTime :: jsstring
  endTime :: jsstring
  "text" :: jsstring

section \<open>Response reconciler\<close>

text \<open>
  \<open>fixedLinesMap\<close> is a plain object literal \<open>{}\<close> used as a dictionary, modelled by its
  own properties. An assignment \<open>fixedLinesMap[idx] = txt\<close> creates or overwrites the own
  property \<open>idx\<close>, with one exception of the language: the key \<open>__proto__\<close> is an accessor
  inherited from \<open>Object.prototype\<close> whose setter ignores a string value, so that
  assignment stores nothing.
\<close>

type_synonym linesMap = "jsstring \<rightharpoonup> jsstring"

definition assign :: "linesMap \<Rightarrow> jsstring \<Rightarrow> jsstring \<Rightarrow> linesMap" where
  "assign m k v = (if k = lit ''__proto__'' then m else m(k \<mapsto> v))"

text \<open>The body of the \<open>forEach\<close> over the response lines.\<close>

definition recordLine :: "linesMap \<Rightarrow> jsstring \<Rightarrow> linesMap" where
  "recordLine m line =
     (if includes_js line SEP then
        (case split line SEP of
           [] \<Rightarrow> m
         | p0 # rest \<Rightarrow>
             (let idx = trim p0;
                  txt = trim (join rest SEP)
              in assign m idx txt))
      else m)"

definition fixedLinesMap :: "jsstring \<Rightarrow> linesMap" where
  "fixedLinesMap resultText = foldl recordLine Map.empty (split resultText NL)"

text \<open>
  \<open>a || b\<close> where \<open>a\<close> is a property read (a string, or \<open>undefined\<close> when the property
  is absent): \<open>undefined\<close> and the empty string are falsy.
\<close>

fun or_js :: "jsstring option \<Rightarrow> jsstring \<Rightarrow> jsstring" where
  "or_js None d = d"
| "or_js (Some v) d = (if v = [] then d else v)"

text \<open>
  The merge \<open>currentBatch.map((item, idx) => ...)\<close>. The key read is always the decimal
  string of \<open>idx + 1\<close>, which names no inherited property of a plain object, so the
  read \<open>fixedLinesMap[key]\<close> sees own properties only.
\<close>

definition mergeItem :: "linesMap \<Rightarrow> nat \<Rightarrow> 'a entry_scheme \<Rightarrow> 'a entry_scheme" where
  "mergeItem m idx item =
     (let key = toString (idx + 1)
      in item\<lparr>text := or_js (m key) (text item)\<rparr>)"

definition safeBatch :: "linesMap \<Rightarrow> 'a entry_scheme list \<Rightarrow> 'a entry_scheme list" where
  "safeBatch m currentBatch =
     map (\<lambda>(idx, item). mergeItem m idx item) (enumerate 0 currentBatch)"

definition reconcile :: "jsstring \<Rightarrow> 'a entry_scheme list \<Rightarrow> 'a entry_scheme list" where
  "reconcile resultText currentBatch = safeBatch (fixedLinesMap resultText) currentBatch"

section \<open>Remote model: responses, errors, effects\<close>

text \<open>
  The part of the JSON body that the code reads. A field is \<open>None\<close> when it is absent
  or \<open>null\<close> (the code tests fields for truthiness, or reads them with \<open>?.\<close>);
  \<open>partText\<close> is \<open>None\<close> also when the field is not a string. An element of the
  arrays \<open>candidates\<close> and \<open>parts\<close> is \<open>None\<close> when the array holds \<open>null\<close> there:
  the code reads a property off the element, which throws on \<open>null\<close>.
\<close>

datatype part = Part (partText: "jsstring option")

datatype content = Content (parts: "part option list option")

datatype candidate = Candidate (content: "content option") (finishReason: "jsstring option")

record json =
  errorMessage :: "jsstring option"
  candidates :: "candidate option list option"
  blockReason :: "jsstring option option"

text \<open>
  What \<open>response.json()\<close> gives: it rejects (the body is not JSON), or resolves to
  \<open>null\<close>, or to a value whose properties can be read.
\<close>

datatype body = NoJson | JsonNull | JsonObject json

text \<open>
  One \<open>fetch\<close>: it rejects (network failure), or resolves to a response with a status
  code and a body.
\<close>

datatype outcome = FetchRejected | Response nat body

definition ok :: "nat \<Rightarrow> bool" where
  "ok status \<longleftrightarrow> 200 \<le> status \<and> status \<le> 299"

datatype reason = UnknownReason | FinishReason "jsstring option" | PromptBlocked "jsstring option"

datatype error =
    RateLimitExhausted
  | ApiError nat "jsstring option"
  | ApiRefused reason
  | DataShape
  | LogicAbort
  | NetworkFailure
  | JsonParseFailure
  | TypeError
  | InvalidFormat
  | EmptySrt
  | FileReadFailure

text \<open>
  Observable effects, oldest first: a request sent with its prompt, and a \<open>sleep(ms)\<close>.
  The remote side is a function of the number of requests made so far and of the prompt,
  so any sequence of outcomes can be played. Log lines, the progress bar and the alert
  box belong to the presentation layer and are left out.
\<close>

datatype event = Fetch jsstring | Sleep nat

type_synonym transport = "nat \<Rightarrow> jsstring \<Rightarrow> outcome"

fun isFetch :: "event \<Rightarrow> bool" where
  "isFetch (Fetch p) = True"
| "isFetch (Sleep ms) = False"

definition fetches :: "event list \<Rightarrow> nat" where
  "fetches evs = length (filter isFetch evs)"

datatype flow = Return "jsstring option" | Continue | Throw error

section \<open>Resilient invoker, \<open>src/App.js\<close>\<close>

text \<open>The rate-limit wait of attempt \<open>i\<close>: \<open>20000 + (i * 10000)\<close>.\<close>

definition waitTime :: "nat \<Rightarrow> nat" where
  "waitTime i = 20000 + (i * 10000)"

text \<open>
  Reading the generated text out of a 2xx body. \<open>candidates[0]\<close> being \<open>null\<close>
  throws inside the condition of the \<open>if\<close>; \<open>parts[0]\<close> is \<open>undefined\<close> on an empty
  array, and reading \<open>.text\<close> off \<open>undefined\<close> or \<open>null\<close> throws. The reason of a
  refusal is computed in the \<open>else\<close> branch, which a \<open>null\<close> candidate never reaches.
\<close>

definition refusal :: "json \<Rightarrow> reason" where
  "refusal data =
     (case candidates data of
        Some (Some c # cs) \<Rightarrow> FinishReason (finishReason c)
      | _ \<Rightarrow> (case blockReason data of
                Some b \<Rightarrow> PromptBlocked b
              | None \<Rightarrow> UnknownReason))"

definition extractText :: "json \<Rightarrow> flow" where
  "extractText data =
     (case candidates data of
        Some (None # cs) \<Rightarrow> Throw TypeError
      | Some (Some c # cs) \<Rightarrow>
          (case content c of
             Some ct \<Rightarrow>
               (case parts ct of
                  Some [] \<Rightarrow> Throw TypeError
                | Some (None # ps) \<Rightarrow> Throw TypeError
                | Some (Some p # ps) \<Rightarrow> Return (partText p)
                | None \<Rightarrow> Throw (ApiRefused (refusal data)))
           | None \<Rightarrow> Throw (ApiRefused (refusal data)))
      | _ \<Rightarrow> Throw (ApiRefused (refusal data)))"

text \<open>
  The \<open>try\<close> block of attempt \<open>i\<close> after the \<open>fetch\<close> has settled. The comparison
  \<open>i === retries - 1\<close> is written \<open>Suc i = retries\<close>. On a status that is not ok a
  body that is not JSON is replaced by \<open>{}\<close>; a body \<open>null\<close> makes \<open>errorData.error\<close>
  throw, as it makes \<open>data.candidates\<close> throw on a 2xx status.
\<close>

definition tryBlock :: "nat \<Rightarrow> nat \<Rightarrow> outcome \<Rightarrow> event list \<Rightarrow> flow \<times> event list" where
  "tryBlock retries i out evs =
     (case out of
        FetchRejected \<Rightarrow> (Throw NetworkFailure, evs)
      | Response status body \<Rightarrow>
          if status = 429 then
            (if Suc i = retries
             then (Throw RateLimitExhausted, evs @ [Sleep (waitTime i)])
             else (Continue, evs @ [Sleep (waitTime i)]))
          else if status = 503 then (Continue, evs @ [Sleep 10000])
          else if \<not> ok status then
            (case body of
               NoJson \<Rightarrow> (Throw (ApiError status None), evs)
             | JsonNull \<Rightarrow> (Throw TypeError, evs)
             | JsonObject errorData \<Rightarrow> (Throw (ApiError status (errorMessage errorData)), evs))
          else
            (case body of
               NoJson \<Rightarrow> (Throw JsonParseFailure, evs)
             | JsonNull \<Rightarrow> (Throw TypeError, evs)
             | JsonObject data \<Rightarrow> (extractText data, evs)))"

function callGeminiWithRetry_from ::
  "transport \<Rightarrow> jsstring \<Rightarrow> nat \<Rightarrow> nat \<Rightarrow> event list \<Rightarrow> (error + jsstring option) \<times> event list"
where
  "callGeminiWithRetry_from tr fullPrompt retries i evs =
     (if i < retries then
        (case tryBlock retries i (tr (fetches evs) fullPrompt) (evs @ [Fetch fullPrompt]) of
           (Return v, evs') \<Rightarrow> (Inr v, evs')
         | (Continue, evs') \<Rightarrow> callGeminiWithRetry_from tr fullPrompt retries (i + 1) evs'
         | (Throw e, evs') \<Rightarrow>
             if Suc i = retries then (Inl e, evs')
             else callGeminiWithRetry_from tr fullPrompt retries (i + 1) (evs' @ [Sleep 5000]))
      else (Inl LogicAbort, evs))"
  by pat_completeness auto
termination
  by (relation "measure (\<lambda>(tr, p, retries, i, evs). retries - i)") auto

declare callGeminiWithRetry_from.simps [simp del]

definition callGeminiWithRetry ::
  "transport \<Rightarrow> jsstring \<Rightarrow> nat \<Rightarrow> event list \<Rightarrow> (error + jsstring option) \<times> event list"
where
  "callGeminiWithRetry tr fullPrompt retries evs =
     callGeminiWithRetry_from tr fullPrompt retries 0 evs"

section \<open>Resilient invoker, \<open>unnamed/part_000\<close>\<close>

text \<open>
  The older variant: a fixed 20 s wait after a 429, the 503 test inside the not-ok
  branch with a 5 s wait, no length test on \<open>candidates\<close>, and nothing after the loop,
  so that leaving the loop returns \<open>undefined\<close>.
\<close>

definition extractText_p0 :: "json \<Rightarrow> flow" where
  "extractText_p0 data =
     (case candidates data of
        None \<Rightarrow> Throw DataShape
      | Some [] \<Rightarrow> Throw TypeError
      | Some (None # cs) \<Rightarrow> Throw TypeError
      | Some (Some c # cs) \<Rightarrow>
          (case content c of
             Some ct \<Rightarrow>
               (case parts ct of
                  Some [] \<Rightarrow> Throw TypeError
                | Some (None # ps) \<Rightarrow> Throw TypeError
                | Some (Some p # ps) \<Rightarrow> Return (partText p)
                | None \<Rightarrow> Throw DataShape)
           | None \<Rightarrow> Throw DataShape))"

definition tryBlock_p0 :: "nat \<Rightarrow> nat \<Rightarrow> outcome \<Rightarrow> event list \<Rightarrow> flow \<times> event list" where
  "tryBlock_p0 retries i out evs =
     (case out of
        FetchRejected \<Rightarrow> (Throw NetworkFailure, evs)
      | Response status body \<Rightarrow>
          if status = 429 then (Continue, evs @ [Sleep 20000])
          else if \<not> ok status then
            (if status = 503 then (Continue, evs @ [Sleep 5000])
             else
               (case body of
                  NoJson \<Rightarrow> (Throw (ApiError status None), evs)
                | JsonNull \<Rightarrow> (Throw TypeError, evs)
                | JsonObject errorData \<Rightarrow> (Throw (ApiError status (errorMessage errorData)), evs)))
          else
            (case body of
               NoJson \<Rightarrow> (Throw JsonParseFailure, evs)
             | JsonNull \<Rightarrow> (Throw TypeError, evs)
             | JsonObject data \<Rightarrow> (extractText_p0 data, evs)))"

function callGeminiWithRetry_p0_from ::
  "transport \<Rightarrow> jsstring \<Rightarrow> nat \<Rightarrow> nat \<Rightarrow> event list \<Rightarrow> (error + jsstring option) \<times> event list"
where
  "callGeminiWithRetry_p0_from tr fullPrompt retries i evs =
     (if i < retries then
        (case tryBlock_p0 retries i (tr (fetches evs) fullPrompt) (evs @ [Fetch fullPrompt]) of
           (Return v, evs') \<Rightarrow> (Inr v, evs')
         | (Continue, evs') \<Rightarrow> callGeminiWithRetry_p0_from tr fullPrompt retries (i + 1) evs'
         | (Throw e, evs') \<Rightarrow>
             if Suc i = retries then (Inl e, evs')
             else callGeminiWithRetry_p0_from tr fullPrompt retries (i + 1) (evs' @ [Sleep 5000]))
      else (Inr None, evs))"
  by pat_completeness auto
termination
  by (relation "measure (\<lambda>(tr, p, retries, i, evs). retries - i)") auto

declare callGeminiWithRetry_p0_from.simps [simp del]

definition callGeminiWithRetry_p0 ::
  "transport \<Rightarrow> jsstring \<Rightarrow> nat \<Rightarrow> event list \<Rightarrow> (error + jsstring option) \<times> event list"
where
  "callGeminiWithRetry_p0 tr fullPrompt retries evs =
     callGeminiWithRetry_p0_from tr fullPrompt retries 0 evs"

section \<open>Batch orchestrator\<close>

text \<open>
  The two files differ in their constants, in the invoker and in what they do with the
  invoker's result before parsing it. (\<open>src/App.js\<close> carries a second, older copy of
  the component after a separator line. Its loop, reconciler and constants are those of
  \<open>part_000\<close>, and so are the fixed rate-limit wait and the missing throw after the
  retry loop; it is not given a variant of its own.)
\<close>

datatype variant = AppJs | Part000

fun BATCH_SIZE :: "variant \<Rightarrow> nat" where
  "BATCH_SIZE AppJs = 25"
| "BATCH_SIZE Part000 = 75"

fun excerptLength :: "variant \<Rightarrow> nat" where
  "excerptLength AppJs = 3000"
| "excerptLength Part000 = 4000"

fun cooldown :: "variant \<Rightarrow> nat" where
  "cooldown AppJs = 4000"
| "cooldown Part000 = 3000"

text \<open>\<open>callGeminiWithRetry(fullPrompt)\<close> with the default \<open>retries\<close> of each file.\<close>

fun invoke :: "variant \<Rightarrow> transport \<Rightarrow> jsstring \<Rightarrow> event list \<Rightarrow> (error + jsstring option) \<times> event list" where
  "invoke AppJs tr fullPrompt evs = callGeminiWithRetry tr fullPrompt 5 evs"
| "invoke Part000 tr fullPrompt evs = callGeminiWithRetry_p0 tr fullPrompt 3 evs"

text \<open>
  \<open>App.js\<close> tests \<open>!resultText || typeof resultText !== "string"\<close> and throws;
  \<open>part_000\<close> calls \<open>resultText.split\<close> at once, which throws on \<open>undefined\<close>.
\<close>

fun checkResult :: "variant \<Rightarrow> jsstring option \<Rightarrow> error + jsstring" where
  "checkResult AppJs None = Inl InvalidFormat"
| "checkResult AppJs (Some t) = (if t = [] then Inl InvalidFormat else Inr t)"
| "checkResult Part000 None = Inl TypeError"
| "checkResult Part000 (Some t) = Inr t"

text \<open>\<open>xs.slice(i, j)\<close> for \<open>0 \<le> i \<le> j\<close>.\<close>

definition slice_js :: "'b list \<Rightarrow> nat \<Rightarrow> nat \<Rightarrow> 'b list" where
  "slice_js xs i j = take (j - i) (drop i xs)"

definition textBlock :: "'a entry_scheme list \<Rightarrow> jsstring" where
  "textBlock currentBatch =
     join (map (\<lambda>(idx, item). toString (idx + 1) @ SEP @ text item) (enumerate 0 currentBatch)) NL"

text \<open>
  \<open>Math.ceil(n / b)\<close> on array lengths, for \<open>b > 0\<close>. The quotient of two array
  lengths is far from the range where the floating-point division could round across an
  integer, so the value is the exact ceiling (\<open>ceilDiv_ceiling\<close> below).
\<close>

definition ceilDiv :: "nat \<Rightarrow> nat \<Rightarrow> nat" where
  "ceilDiv n b = (n + b - 1) div b"

text \<open>
  One pass through the loop body for the batch starting at \<open>i\<close>. The instruction prose of
  the prompt is a parameter \<open>prompt\<close>, applied to the batch length, the transcript excerpt
  and the rendered batch.
\<close>

definition processBatch ::
  "variant \<Rightarrow> nat \<Rightarrow> (nat \<Rightarrow> jsstring \<Rightarrow> jsstring \<Rightarrow> jsstring) \<Rightarrow> jsstring \<Rightarrow> 'a entry_scheme list
     \<Rightarrow> transport \<Rightarrow> nat \<Rightarrow> event list \<Rightarrow> (error + 'a entry_scheme list) \<times> event list"
where
  "processBatch v B prompt script srtArray tr i evs =
     (let totalBatches = ceilDiv (length srtArray) B;
          batchIndex = i div B + 1;
          currentBatch = slice_js srtArray i (i + B);
          fullPrompt = prompt (length currentBatch) (take (excerptLength v) script)
                         (textBlock currentBatch)
      in case invoke v tr fullPrompt evs of
           (Inl e, evs') \<Rightarrow> (Inl e, evs')
         | (Inr resultText, evs') \<Rightarrow>
             (case checkResult v resultText of
                Inl e \<Rightarrow> (Inl e, evs')
              | Inr t \<Rightarrow>
                  (Inr (reconcile t currentBatch),
                   if batchIndex < totalBatches then evs' @ [Sleep (cooldown v)] else evs')))"

text \<open>
  \<open>for (let i = 0; i < srtArray.length; i += BATCH_SIZE)\<close>. With a batch size of zero
  the loop never advances, so the loop is a partial function: \<open>None\<close> is not returning.
\<close>

partial_function (option) batchLoop ::
  "variant \<Rightarrow> nat \<Rightarrow> (nat \<Rightarrow> jsstring \<Rightarrow> jsstring \<Rightarrow> jsstring) \<Rightarrow> jsstring \<Rightarrow> 'a entry_scheme list
     \<Rightarrow> transport \<Rightarrow> nat \<Rightarrow> 'a entry_scheme list \<Rightarrow> event list
     \<Rightarrow> ((error + 'a entry_scheme list) \<times> event list) option"
where
  [code]: "batchLoop v B prompt script srtArray tr i processedArray evs =
     (if i < length srtArray then
        (case processBatch v B prompt script srtArray tr i evs of
           (Inl e, evs') \<Rightarrow> Some (Inl e, evs')
         | (Inr safe, evs') \<Rightarrow>
             batchLoop v B prompt script srtArray tr (i + B) (processedArray @ safe) evs')
      else Some (Inr processedArray, evs))"

text \<open>
  \<open>processSrt\<close>. The three guards return after an alert; everything after them runs
  inside one \<open>try\<close>, whose \<open>catch\<close> ends the run as failed. The subtitle parser is
  outside the repository: \<open>fromSrt\<close> and \<open>toSrt\<close> are parameters.
\<close>

datatype upload = Readable jsstring | Unreadable

record inputs =
  apiKey :: jsstring
  srtFile :: "upload option"
  scriptText :: jsstring

datatype alert = NeedApiKey | NeedSrtFile | NeedScript

datatype 'e run = Alerted alert | Failed error | Completed "'e list" jsstring

definition finish :: "('a entry_scheme list \<Rightarrow> jsstring) \<Rightarrow> (error + 'a entry_scheme list) \<times> event list
     \<Rightarrow> 'a entry_scheme run \<times> event list" where
  "finish toSrt r =
     (case r of
        (Inl e, evs) \<Rightarrow> (Failed e, evs)
      | (Inr processedArray, evs) \<Rightarrow> (Completed processedArray (toSrt processedArray), evs))"

definition processSrt ::
  "variant \<Rightarrow> (nat \<Rightarrow> jsstring \<Rightarrow> jsstring \<Rightarrow> jsstring) \<Rightarrow> (jsstring \<Rightarrow> 'a entry_scheme list)
     \<Rightarrow> ('a entry_scheme list \<Rightarrow> jsstring) \<Rightarrow> transport \<Rightarrow> inputs
     \<Rightarrow> ('a entry_scheme run \<times> event list) option"
where
  "processSrt v prompt fromSrt toSrt tr inp =
     (if apiKey inp = [] then Some (Alerted NeedApiKey, [])
      else
        (case srtFile inp of
           None \<Rightarrow> Some (Alerted NeedSrtFile, [])
         | Some f \<Rightarrow>
             (if scriptText inp = [] then Some (Alerted NeedScript, [])
              else
                (case f of
                   Unreadable \<Rightarrow> Some (Failed FileReadFailure, [])
                 | Readable fileText \<Rightarrow>
                     (let srtArray = fromSrt fileText
                      in if length srtArray = 0 then Some (Failed EmptySrt, [])
                         else map_option (finish toSrt)
                                (batchLoop v (BATCH_SIZE v) prompt (scriptText inp) srtArray
                                   tr 0 [] []))))))"

section \<open>Sample data\<close>

definition entryOf :: "jsstring \<Rightarrow> entry" where
  "entryOf t = \<lparr>seqId = [], startTime = lit ''00:00:01,000'', endTime = lit ''00:00:02,000'', text = t\<rparr>"

text \<open>A 2xx body carrying the generated text \<open>t\<close>.\<close>

definition textBody :: "jsstring \<Rightarrow> json" where
  "textBody t =
     \<lparr>errorMessage = None,
      candidates = Some [Some (Candidate (Some (Content (Some [Some (Part (Some t))]))) None)],
      blockReason = None\<rparr>"

text \<open>A remote side that is rate-limited on every request, and one that is rate-limited
  on the first request and answers \<open>1>>>x\<close> from then on.\<close>

definition alwaysLimited :: transport where
  "alwaysLimited n p = Response 429 NoJson"

definition limitedOnce :: transport where
  "limitedOnce n p = (if n = 0 then Response 429 NoJson else Response 200 (JsonObject (textBody (lit ''1>>>x''))))"

text \<open>A remote side that is rate-limited on the first two requests and then answers.\<close>

definition limitedTwice :: transport where
  "limitedTwice n p = (if n < 2 then Response 429 NoJson else Response 200 (JsonObject (textBody (lit ''1>>>x''))))"

definition plainPrompt :: "nat \<Rightarrow> jsstring \<Rightarrow> jsstring \<Rightarrow> jsstring" where
  "plainPrompt n excerpt block = excerpt @ NL @ block"

definition threeEntries :: "jsstring \<Rightarrow> entry list" where
  "threeEntries fileText = [entryOf (lit ''a''), entryOf (lit ''b''), entryOf (lit ''c'')]"

definition noEntries :: "jsstring \<Rightarrow> entry list" where
  "noEntries fileText = []"

definition textsOnly :: "entry list \<Rightarrow> jsstring" where
  "textsOnly es = join (map text es) NL"

definition sampleInputs :: inputs where
  "sampleInputs = \<lparr>apiKey = lit ''key'', srtFile = Some (Readable (lit ''srt'')), scriptText = lit ''script''\<rparr>"

section \<open>Strings: splitting and joining\<close>



lemma split_ne_not_Nil: "split_ne sep s \<noteq> []"
  by (induction sep s rule: split_ne.induct) (auto split: list.splits)

lemma join_Cons_Cons: "join ((c # p) # ps) sep = c # join (p # ps) sep"
  by (cases ps) simp_all

lemma join_Cons: "ps \<noteq> [] \<Longrightarrow> join (p # ps) sep = p @ sep @ join ps sep"
  by (cases ps) simp_all

lemma join_split_ne: "join (split_ne sep s) sep = s"
proof (induction sep s rule: split_ne.induct)
  case (1 sep)
  show ?case by simp
next
  case (2 sep c cs)
  show ?case
  proof (cases "sep \<noteq> [] \<and> take (length sep) (c # cs) = sep")
    case True
    then have ih: "join (split_ne sep (drop (length sep) (c # cs))) sep = drop (length sep) (c # cs)"
      using "2.IH"(1) by blast
    have "join ([] # split_ne sep (drop (length sep) (c # cs))) sep
            = sep @ drop (length sep) (c # cs)"
      using ih by (simp add: join_Cons split_ne_not_Nil)
    also have "\<dots> = take (length sep) (c # cs) @ drop (length sep) (c # cs)"
      using True by simp
    also have "\<dots> = c # cs"
      by (rule append_take_drop_id)
    finally have "join ([] # split_ne sep (drop (length sep) (c # cs))) sep = c # cs" .
    moreover have "split_ne sep (c # cs) = [] # split_ne sep (drop (length sep) (c # cs))"
      using True by (simp del: take_Suc_Cons drop_Suc_Cons)
    ultimately show ?thesis by simp
  next
    case False
    then have ih: "join (split_ne sep cs) sep = cs"
      using "2.IH"(2) by blast
    obtain p ps where ps: "split_ne sep cs = p # ps"
      using split_ne_not_Nil by (cases "split_ne sep cs") auto
    have "split_ne sep (c # cs) = (c # p) # ps"
      using False ps by (auto simp del: take_Suc_Cons)
    then show ?thesis using ih ps by (simp add: join_Cons_Cons)
  qed
qed

lemma includes_js_length: "includes_js s sub \<Longrightarrow> length sub \<le> length s"
proof (induction s)
  case Nil
  then show ?case by simp
next
  case (Cons a s)
  show ?case
  proof (cases "take (length sub) (a # s) = sub")
    case True
    then have "length sub = length (take (length sub) (a # s))" by simp
    then show ?thesis by (simp only: length_take)
  next
    case False
    with Cons show ?thesis by simp
  qed
qed

lemma take_append_le: "n \<le> length xs \<Longrightarrow> take n (xs @ ys) = take n xs"
  by simp

lemma split_ne_first:
  assumes "sep \<noteq> []" and "\<not> includes_js (pre @ butlast sep) sep"
  shows "split_ne sep (pre @ sep @ post) = pre # split_ne sep post"
  using assms(2)
proof (induction pre)
  case Nil
  obtain c cs where sep: "sep = c # cs" using assms(1) by (cases sep) auto
  have "split_ne sep (sep @ post) = [] # split_ne sep (drop (length sep) (sep @ post))"
    by (subst sep, subst append_Cons, subst split_ne.simps) (simp add: sep)
  then show ?case by simp
next
  case (Cons a pre)
  have no: "take (length sep) (a # pre @ butlast sep) \<noteq> sep"
    and rest: "\<not> includes_js (pre @ butlast sep) sep"
    using Cons.prems by simp_all
  have "length sep \<le> length (a # pre @ butlast sep)" by simp
  have eq: "a # pre @ sep @ post = (a # pre @ butlast sep) @ (last sep # post)"
    using assms(1) by simp
  have "take (length sep) (a # pre @ sep @ post) = take (length sep) (a # pre @ butlast sep)"
    by (subst eq, rule take_append_le) simp
  with no have no': "take (length sep) (a # pre @ sep @ post) \<noteq> sep" by simp
  have "split_ne sep ((a # pre) @ sep @ post)
          = (case split_ne sep (pre @ sep @ post) of [] \<Rightarrow> [[a]] | p # ps \<Rightarrow> (a # p) # ps)"
    using no' by (simp del: take_Suc_Cons)
  also have "\<dots> = (a # pre) # split_ne sep post"
    using Cons.IH[OF rest] by simp
  finally show ?case .
qed

lemma includes_js_first:
  assumes "sep \<noteq> []"
  shows "includes_js s sep \<Longrightarrow>
         \<exists>pre post. s = pre @ sep @ post \<and> \<not> includes_js (pre @ butlast sep) sep"
proof (induction s)
  case Nil
  then show ?case using assms by simp
next
  case (Cons c cs)
  show ?case
  proof (cases "take (length sep) (c # cs) = sep")
    case True
    have "c # cs = [] @ sep @ drop (length sep) (c # cs)"
      using True append_take_drop_id[of "length sep" "c # cs"] by (simp del: take_Suc_Cons drop_Suc_Cons)
    moreover have "\<not> includes_js ([] @ butlast sep) sep"
    proof
      assume "includes_js ([] @ butlast sep) sep"
      then have "includes_js (butlast sep) sep" by simp
      then have "length sep \<le> length (butlast sep)"
        by (rule includes_js_length)
      moreover have "0 < length sep" using assms by simp
      ultimately show False unfolding length_butlast by arith
    qed
    ultimately show ?thesis by blast
  next
    case False
    with Cons.prems have "includes_js cs sep" by simp
    then obtain pre post where cs: "cs = pre @ sep @ post"
      and nf: "\<not> includes_js (pre @ butlast sep) sep"
      using Cons.IH by blast
    have eq: "c # cs = (c # pre @ butlast sep) @ (last sep # post)"
      using assms cs by simp
    have "take (length sep) (c # cs) = take (length sep) (c # pre @ butlast sep)"
      by (subst eq, rule take_append_le) simp
    with False have "take (length sep) (c # pre @ butlast sep) \<noteq> sep" by simp
    with nf have "\<not> includes_js ((c # pre) @ butlast sep) sep" by simp
    moreover have "c # cs = (c # pre) @ sep @ post" using cs by simp
    ultimately show ?thesis by blast
  qed
qed

lemma recordLine_first:
  assumes "\<not> includes_js (pre @ butlast SEP) SEP"
  shows "recordLine m (pre @ SEP @ post) = assign m (trim pre) (trim post)"
proof -
  have ne: "SEP \<noteq> []" by (simp add: SEP_def)
  have inc: "includes_js (pre @ SEP @ post) SEP"
    by (induction pre) (simp_all add: SEP_def)
  have "split (pre @ SEP @ post) SEP = pre # split_ne SEP post"
    using split_ne_first[OF ne assms] ne by (simp add: split_def)
  then show ?thesis
    using inc by (simp add: recordLine_def join_split_ne)
qed



lemma includes_js_iff:
  "includes_js s sub \<longleftrightarrow> (\<exists>k\<le>length s. take (length sub) (drop k s) = sub)"
proof (induction s)
  case Nil
  show ?case by auto
next
  case (Cons c cs)
  have "(\<exists>k\<le>length (c # cs). take (length sub) (drop k (c # cs)) = sub)
          \<longleftrightarrow> take (length sub) (c # cs) = sub \<or> (\<exists>k\<le>length cs. take (length sub) (drop k cs) = sub)"
    (is "?L \<longleftrightarrow> ?A \<or> ?B")
  proof
    assume ?L
    then obtain k where k: "k \<le> length (c # cs)" "take (length sub) (drop k (c # cs)) = sub"
      by blast
    show "?A \<or> ?B"
    proof (cases k)
      case 0
      with k show ?thesis by simp
    next
      case (Suc k')
      with k have "k' \<le> length cs" "take (length sub) (drop k' cs) = sub" by simp_all
      then show ?thesis by blast
    qed
  next
    assume "?A \<or> ?B"
    then show ?L
    proof
      assume ?A
      then have "take (length sub) (drop 0 (c # cs)) = sub" by simp
      then show ?L by blast
    next
      assume ?B
      then obtain k where "k \<le> length cs" "take (length sub) (drop k cs) = sub" by blast
      then have "Suc k \<le> length (c # cs)" "take (length sub) (drop (Suc k) (c # cs)) = sub"
        by simp_all
      then show ?L by blast
    qed
  qed
  with Cons.IH show ?case by (simp del: take_Suc_Cons)
qed

lemma no_earlier_occurrence:
  assumes "sep \<noteq> []" and "\<not> includes_js (pre @ butlast sep) sep" and "k < length pre"
  shows "take (length sep) (drop k (pre @ sep @ post)) \<noteq> sep"
proof -
  have eq: "pre @ sep @ post = (pre @ butlast sep) @ (last sep # post)"
    using assms(1) by simp
  have "drop k (pre @ sep @ post) = drop k (pre @ butlast sep) @ (last sep # post)"
    using assms(3) by (subst eq) simp
  moreover have "length sep \<le> length (drop k (pre @ butlast sep))"
  proof -
    have "0 < length sep" using assms(1) by simp
    then show ?thesis using assms(3) unfolding length_drop length_append length_butlast by arith
  qed
  ultimately have "take (length sep) (drop k (pre @ sep @ post))
                     = take (length sep) (drop k (pre @ butlast sep))"
    by simp
  moreover have "take (length sep) (drop k (pre @ butlast sep)) \<noteq> sep"
  proof
    assume "take (length sep) (drop k (pre @ butlast sep)) = sep"
    moreover have "k \<le> length (pre @ butlast sep)" using assms(3) by simp
    ultimately have "includes_js (pre @ butlast sep) sep"
      unfolding includes_js_iff by blast
    with assms(2) show False by simp
  qed
  ultimately show ?thesis by simp
qed

lemma length_safeBatch: "length (safeBatch m b) = length b"
  by (simp add: safeBatch_def)

lemma safeBatch_nth: "i < length b \<Longrightarrow> safeBatch m b ! i = mergeItem m i (b ! i)"
  by (simp add: safeBatch_def nth_enumerate_eq)

lemma length_reconcile: "length (reconcile r b) = length b"
  by (simp add: reconcile_def length_safeBatch)

lemma reconcile_nth_text:
  "i < length b \<Longrightarrow>
   text (reconcile r b ! i) = or_js (fixedLinesMap r (toString (Suc i))) (text (b ! i))"
  by (simp add: reconcile_def safeBatch_nth mergeItem_def)

lemma toString_1: "toString 1 = lit ''1''"
  by (simp add: toString.simps digit_def lit_def)

lemma toString_2: "toString 2 = lit ''2''"
  by (simp add: toString.simps digit_def lit_def)

lemma toString_3: "toString 3 = lit ''3''"
  by (simp add: toString.simps digit_def lit_def)

lemmas eval_defs =
  fixedLinesMap_def split_def NL_def SEP_def lit_def recordLine_def trim_def
  isWhiteSpace_def assign_def toString.simps digit_def entryOf_def

section \<open>Reconciler: fallback and replacement\<close>

text \<open>
  C2 (fallback law). When the correction map parsed from the response has no entry under
  the decimal string of the 1-based local index \<open>i\<close>, the output entry at position \<open>i\<close>
  carries the original text unchanged.
\<close>

theorem reconcile_fallback:
  assumes "1 \<le> i" and "i \<le> length currentBatch"
    and "fixedLinesMap resultText (toString i) = None"
  shows "text (reconcile resultText currentBatch ! (i - 1)) = text (currentBatch ! (i - 1))"
  using assms reconcile_nth_text[of "i - 1" currentBatch resultText] by simp

lemma sample_no_entry_2: "fixedLinesMap (lit ''1>>>x'') (toString 2) = None"
  by (simp add: eval_defs)

theorem reconcile_fallback_witness:
  "(1::nat) \<le> 2 \<and> 2 \<le> length [entryOf (lit ''a''), entryOf (lit ''b'')]
   \<and> fixedLinesMap (lit ''1>>>x'') (toString 2) = None
   \<and> text (reconcile (lit ''1>>>x'') [entryOf (lit ''a''), entryOf (lit ''b'')] ! (2 - 1))
       = text ([entryOf (lit ''a''), entryOf (lit ''b'')] ! (2 - 1))"
  using reconcile_fallback[of 2 "[entryOf (lit ''a''), entryOf (lit ''b'')]" "lit ''1>>>x''"]
    sample_no_entry_2
  by simp

text \<open>
  C3, as stated, fails on the code: the response line \<open>1>>>\<close> puts the empty string
  under key \<open>1\<close>, the empty string is falsy, and \<open>||\<close> keeps the original text.
\<close>

theorem reconcile_takes_entry_counterexample:
  "fixedLinesMap (lit ''1>>>'') (toString 1) = Some []
   \<and> text (reconcile (lit ''1>>>'') [entryOf (lit ''a'')] ! (1 - 1)) = lit ''a''
   \<and> lit ''a'' \<noteq> []"
  by (simp add: eval_defs reconcile_def safeBatch_def mergeItem_def)

text \<open>
  C3, amended. When the correction map has an entry under the decimal string of the
  1-based local index \<open>i\<close>, the output entry at position \<open>i\<close> takes exactly that entry
  as its text if the entry is not empty, and keeps its original text if the entry is the
  empty string.
\<close>

theorem reconcile_takes_nonempty_entry:
  assumes "1 \<le> i" and "i \<le> length currentBatch"
    and "fixedLinesMap resultText (toString i) = Some v"
  shows "text (reconcile resultText currentBatch ! (i - 1))
           = (if v = [] then text (currentBatch ! (i - 1)) else v)"
  using assms reconcile_nth_text[of "i - 1" currentBatch resultText] by simp

lemma sample_entry_1: "fixedLinesMap (lit ''1>>>x'') (toString 1) = Some (lit ''x'')"
  by (simp add: eval_defs)

theorem reconcile_takes_nonempty_entry_witness:
  "(1::nat) \<le> 1 \<and> 1 \<le> length [entryOf (lit ''a''), entryOf (lit ''b'')]
   \<and> fixedLinesMap (lit ''1>>>x'') (toString 1) = Some (lit ''x'')
   \<and> text (reconcile (lit ''1>>>x'') [entryOf (lit ''a''), entryOf (lit ''b'')] ! (1 - 1)) = lit ''x''"
  using reconcile_takes_nonempty_entry[of 1 "[entryOf (lit ''a''), entryOf (lit ''b'')]"
      "lit ''1>>>x''" "lit ''x''"] sample_entry_1
  by (simp add: lit_def)

section \<open>Reconciler: parsing one response line\<close>

text \<open>
  C5, as stated, fails on the code: the text after the first separator is trimmed before
  it is recorded. In the line \<open>1>>> a\<close> everything after the first separator is
  \<open>" a"\<close>, and the map receives \<open>"a"\<close>. And a line whose key is \<open>__proto__\<close>
  records nothing under its key.
\<close>

theorem recordLine_untrimmed_counterexample:
  "lit ''1>>> a'' = lit ''1'' @ SEP @ lit '' a''
   \<and> recordLine Map.empty (lit ''1>>> a'') (lit ''1'') = Some (lit ''a'')
   \<and> lit ''a'' \<noteq> lit '' a''
   \<and> lit ''__proto__>>>x'' = lit ''__proto__'' @ SEP @ lit ''x''
   \<and> recordLine Map.empty (lit ''__proto__>>>x'') (lit ''__proto__'') = None"
  by (simp add: eval_defs)

text \<open>
  C5, amended. A response line that contains the separator is cut at its first
  occurrence (no occurrence starts before the cut). The trimmed portion before it is the
  index key; the trimmed portion after it, further separators included as they stand, is
  recorded under that key, except that the key \<open>__proto__\<close> records nothing. The line
  \<open>3>>>a>>>b\<close> yields \<open>a>>>b\<close> for local index 3.
\<close>

theorem recordLine_first_separator:
  "(includes_js line SEP \<longrightarrow>
      (\<exists>pre post. line = pre @ SEP @ post
         \<and> (\<forall>k<length pre. take (length SEP) (drop k line) \<noteq> SEP)
         \<and> recordLine m line
             = (if trim pre = lit ''__proto__'' then m else m(trim pre \<mapsto> trim post))))
   \<and> fixedLinesMap (lit ''3>>>a>>>b'') (toString 3) = Some (lit ''a>>>b'')"
proof (intro conjI impI)
  assume inc: "includes_js line SEP"
  have ne: "SEP \<noteq> []" by (simp add: SEP_def)
  from includes_js_first[OF ne inc] obtain pre post
    where line: "line = pre @ SEP @ post" and first: "\<not> includes_js (pre @ butlast SEP) SEP"
    by blast
  have "\<forall>k<length pre. take (length SEP) (drop k line) \<noteq> SEP"
    using no_earlier_occurrence[OF ne first] line by blast
  moreover have "recordLine m line
                   = (if trim pre = lit ''__proto__'' then m else m(trim pre \<mapsto> trim post))"
    using recordLine_first[OF first] line by (simp add: assign_def)
  ultimately show "\<exists>pre post. line = pre @ SEP @ post
         \<and> (\<forall>k<length pre. take (length SEP) (drop k line) \<noteq> SEP)
         \<and> recordLine m line
             = (if trim pre = lit ''__proto__'' then m else m(trim pre \<mapsto> trim post))"
    using line by blast
next
  show "fixedLinesMap (lit ''3>>>a>>>b'') (toString 3) = Some (lit ''a>>>b'')"
    by (simp add: eval_defs)
qed

lemma sample_includes: "includes_js (lit ''3>>>a>>>b'') SEP"
  by (simp add: eval_defs)

theorem recordLine_first_separator_witness:
  "includes_js (lit ''3>>>a>>>b'') SEP
   \<and> (\<exists>pre post. lit ''3>>>a>>>b'' = pre @ SEP @ post
         \<and> recordLine Map.empty (lit ''3>>>a>>>b'')
             = (if trim pre = lit ''__proto__'' then Map.empty else [trim pre \<mapsto> trim post]))
   \<and> fixedLinesMap (lit ''3>>>a>>>b'') (toString 3) = Some (lit ''a>>>b'')"
  using recordLine_first_separator[of "lit ''3>>>a>>>b''" Map.empty] sample_includes
  by blast

section \<open>Reconciler: lines with a foreign key\<close>

lemma split_SEP_not_Nil: "split line SEP \<noteq> []"
  by (simp add: split_def SEP_def split_ne_not_Nil)

lemma recordLine_other_key:
  "k \<noteq> trim (hd (split line SEP)) \<Longrightarrow> recordLine m line k = m k"
  by (cases "split line SEP") (auto simp: recordLine_def assign_def Let_def)

lemma recordLine_agree:
  assumes "\<forall>k'. k' \<noteq> k \<longrightarrow> m1 k' = m2 k'"
  shows "\<forall>k'. k' \<noteq> k \<longrightarrow> recordLine m1 l k' = recordLine m2 l k'"
  using assms by (simp add: recordLine_def assign_def Let_def split: list.splits)

lemma foldl_recordLine_agree:
  "\<forall>k'. k' \<noteq> k \<longrightarrow> m1 k' = m2 k' \<Longrightarrow>
   \<forall>k'. k' \<noteq> k \<longrightarrow> foldl recordLine m1 ls k' = foldl recordLine m2 ls k'"
proof (induction ls arbitrary: m1 m2)
  case Nil
  then show ?case by simp
next
  case (Cons l ls)
  from recordLine_agree[OF Cons.prems]
  have "\<forall>k'. k' \<noteq> k \<longrightarrow> recordLine m1 l k' = recordLine m2 l k'" .
  from Cons.IH[OF this] show ?case by simp
qed

lemma safeBatch_cong:
  assumes "\<forall>i<length b. m1 (toString (Suc i)) = m2 (toString (Suc i))"
  shows "safeBatch m1 b = safeBatch m2 b"
proof (rule nth_equalityI)
  show "length (safeBatch m1 b) = length (safeBatch m2 b)"
    by (simp add: length_safeBatch)
next
  fix i assume "i < length (safeBatch m1 b)"
  then have i: "i < length b" by (simp add: length_safeBatch)
  with assms have "m1 (toString (Suc i)) = m2 (toString (Suc i))" by blast
  then show "safeBatch m1 b ! i = safeBatch m2 b ! i"
    using i by (simp add: safeBatch_nth mergeItem_def)
qed

lemma recordLine_stores:
  assumes "includes_js line SEP" and "trim (hd (split line SEP)) \<noteq> lit ''__proto__''"
  shows "recordLine m line (trim (hd (split line SEP))) = Some (trim (join (tl (split line SEP)) SEP))"
  using assms split_SEP_not_Nil[of line]
  by (cases "split line SEP") (auto simp: recordLine_def assign_def Let_def)

text \<open>
  C10, as stated, fails on the code in its first half: a line whose key is \<open>__proto__\<close>
  is not recorded in the correction map.
\<close>

theorem foreign_key_line_counterexample:
  "includes_js (lit ''__proto__>>>x'') SEP
   \<and> trim (hd (split (lit ''__proto__>>>x'') SEP)) = lit ''__proto__''
   \<and> lit ''__proto__'' \<noteq> toString 1
   \<and> fixedLinesMap (lit ''__proto__>>>x'') (lit ''__proto__'') = None"
  by (simp add: eval_defs)

text \<open>
  C10, amended. Take a response line that contains the separator and whose trimmed index
  portion is not the decimal string of any \<open>i\<close> with \<open>1 \<le> i \<le> L\<close>, \<open>L\<close> the batch
  length. The reconciled batch is the one the response would give without that line, so
  the line changes, corrupts or adds no entry; and the line is recorded in the map under
  its key unless that key is \<open>__proto__\<close>.
\<close>

theorem foreign_key_line_no_effect:
  assumes "split resultText NL = before @ line # after"
    and "includes_js line SEP"
    and "\<forall>i. 1 \<le> i \<and> i \<le> length currentBatch \<longrightarrow> trim (hd (split line SEP)) \<noteq> toString i"
  shows "reconcile resultText currentBatch
           = safeBatch (foldl recordLine Map.empty (before @ after)) currentBatch
         \<and> (trim (hd (split line SEP)) \<noteq> lit ''__proto__'' \<longrightarrow>
              foldl recordLine Map.empty (before @ [line]) (trim (hd (split line SEP)))
                = Some (trim (join (tl (split line SEP)) SEP)))"
proof (intro conjI impI)
  let ?key = "trim (hd (split line SEP))"
  let ?m = "foldl recordLine Map.empty before"
  have "\<forall>k'. k' \<noteq> ?key \<longrightarrow> recordLine ?m line k' = ?m k'"
    by (simp add: recordLine_other_key)
  from foldl_recordLine_agree[OF this]
  have agree: "\<forall>k'. k' \<noteq> ?key \<longrightarrow>
      foldl recordLine (recordLine ?m line) after k' = foldl recordLine ?m after k'" .
  have "\<forall>i<length currentBatch.
      foldl recordLine Map.empty (before @ line # after) (toString (Suc i))
        = foldl recordLine Map.empty (before @ after) (toString (Suc i))"
  proof (intro allI impI)
    fix i assume "i < length currentBatch"
    then have "?key \<noteq> toString (Suc i)" using assms(3) by simp
    then show "foldl recordLine Map.empty (before @ line # after) (toString (Suc i))
        = foldl recordLine Map.empty (before @ after) (toString (Suc i))"
      using agree by simp
  qed
  from safeBatch_cong[OF this]
  show "reconcile resultText currentBatch
           = safeBatch (foldl recordLine Map.empty (before @ after)) currentBatch"
    by (simp add: reconcile_def fixedLinesMap_def assms(1))
next
  assume "trim (hd (split line SEP)) \<noteq> lit ''__proto__''"
  then show "foldl recordLine Map.empty (before @ [line]) (trim (hd (split line SEP)))
                = Some (trim (join (tl (split line SEP)) SEP))"
    using recordLine_stores[OF assms(2)] by simp
qed

lemma sample_split_lines:
  "split (lit [CHR ''1'', CHR ''>'', CHR ''>'', CHR ''>'', CHR ''x'', CHR 0x0A,
               CHR ''9'', CHR ''>'', CHR ''>'', CHR ''>'', CHR ''y'']) NL
     = [lit ''1>>>x''] @ lit ''9>>>y'' # []"
  by (simp add: eval_defs)

lemma sample_key_9:
  "includes_js (lit ''9>>>y'') SEP \<and> trim (hd (split (lit ''9>>>y'') SEP)) = lit ''9''
   \<and> trim (join (tl (split (lit ''9>>>y'') SEP)) SEP) = lit ''y''"
  by (simp add: eval_defs)

lemma sample_key_9_foreign:
  "\<forall>i. 1 \<le> i \<and> i \<le> length [entryOf (lit ''a'')] \<longrightarrow>
        trim (hd (split (lit ''9>>>y'') SEP)) \<noteq> toString i"
proof (intro allI impI)
  fix i :: nat assume "1 \<le> i \<and> i \<le> length [entryOf (lit ''a'')]"
  then have "i = 1" by simp
  then show "trim (hd (split (lit ''9>>>y'') SEP)) \<noteq> toString i"
    using sample_key_9 by (simp add: toString.simps digit_def lit_def)
qed

theorem foreign_key_line_no_effect_witness:
  "reconcile (lit [CHR ''1'', CHR ''>'', CHR ''>'', CHR ''>'', CHR ''x'', CHR 0x0A,
               CHR ''9'', CHR ''>'', CHR ''>'', CHR ''>'', CHR ''y'']) [entryOf (lit ''a'')]
     = safeBatch (foldl recordLine Map.empty ([lit ''1>>>x''] @ [])) [entryOf (lit ''a'')]
   \<and> foldl recordLine Map.empty ([lit ''1>>>x''] @ [lit ''9>>>y'']) (lit ''9'') = Some (lit ''y'')"
  using foreign_key_line_no_effect[OF sample_split_lines, of "[entryOf (lit ''a'')]"]
    sample_key_9 sample_key_9_foreign
  by (simp add: lit_def)

section \<open>Batch arithmetic\<close>

lemma ceilDiv_0: "0 < b \<Longrightarrow> ceilDiv 0 b = 0"
  by (simp add: ceilDiv_def)

lemma ceilDiv_step:
  assumes "0 < b" and "0 < d"
  shows "ceilDiv d b = Suc (ceilDiv (d - b) b)"
proof (cases "b \<le> d")
  case True
  obtain e where d: "d = Suc e" using assms(2) by (cases d) auto
  have "ceilDiv d b = (e + b) div b" by (simp add: ceilDiv_def d)
  also have "\<dots> = Suc (e div b)" using assms(1) by simp
  also have "e = d - b + b - 1" using True d by simp
  finally show ?thesis by (simp only: ceilDiv_def)
next
  case False
  then have "d - b = 0" by simp
  moreover have "(d + b - 1) div b = 1"
    using assms False by (intro div_nat_eqI) simp_all
  ultimately show ?thesis using assms by (simp add: ceilDiv_def)
qed


lemma ceilDiv_upper: "0 < b \<Longrightarrow> n \<le> ceilDiv n b * b"
proof -
  assume b: "0 < b"
  have "n + b - 1 < (n + b - 1) div b * b + b"
    using b dividend_less_div_times[of b "n + b - 1"] by (simp add: ac_simps)
  then show ?thesis unfolding ceilDiv_def using b by arith
qed



lemma concat_slices:
  "concat (map (\<lambda>k. slice_js xs (k * B) (k * B + B)) [0..<m]) = take (m * B) xs"
proof (induction m)
  case 0
  show ?case by simp
next
  case (Suc m)
  have "take (m * B + B) xs = take (m * B) xs @ take B (drop (m * B) xs)"
    by (rule take_add)
  then show ?case using Suc by (simp add: slice_js_def add.commute)
qed

lemma length_slice: "length (slice_js xs i (i + B)) = min B (length xs - i)"
  by (simp add: slice_js_def)

section \<open>Batch loop\<close>

lemma processBatch_cases:
  assumes "processBatch v B prompt script srtArray tr i evs = (r, evs')"
  shows "(\<exists>e. r = Inl e) \<or> (\<exists>t. r = Inr (reconcile t (slice_js srtArray i (i + B))))"
  using assms
  by (auto simp: processBatch_def Let_def split: prod.splits sum.splits)

lemma batchLoop_shape:
  assumes "0 < B"
  shows "\<exists>r evs'. batchLoop v B prompt script srtArray tr i acc evs = Some (r, evs')
           \<and> (\<forall>out. r = Inr out \<longrightarrow>
                 (\<exists>texts. length texts = ceilDiv (length srtArray - i) B
                    \<and> out = acc @ concat (map2 reconcile texts
                          (map (\<lambda>k. slice_js srtArray (i + k * B) (i + k * B + B))
                               [0..<ceilDiv (length srtArray - i) B]))))"
proof (induction "length srtArray - i" arbitrary: i acc evs rule: less_induct)
  case less
  show ?case
  proof (cases "i < length srtArray")
    case False
    then have "ceilDiv (length srtArray - i) B = 0" using assms by (simp add: ceilDiv_0)
    then show ?thesis using False by (subst batchLoop.simps) simp
  next
    case True
    obtain r1 evs1 where pb: "processBatch v B prompt script srtArray tr i evs = (r1, evs1)"
      by (cases "processBatch v B prompt script srtArray tr i evs") auto
    from processBatch_cases[OF pb] show ?thesis
    proof
      assume "\<exists>e. r1 = Inl e"
      then obtain e where "r1 = Inl e" ..
      then show ?thesis using True pb by (subst batchLoop.simps) simp
    next
      assume "\<exists>t. r1 = Inr (reconcile t (slice_js srtArray i (i + B)))"
      then obtain t where r1: "r1 = Inr (reconcile t (slice_js srtArray i (i + B)))" ..
      let ?safe = "reconcile t (slice_js srtArray i (i + B))"
      let ?m = "ceilDiv (length srtArray - (i + B)) B"
      have step: "batchLoop v B prompt script srtArray tr i acc evs
                    = batchLoop v B prompt script srtArray tr (i + B) (acc @ ?safe) evs1"
        using True pb r1 by (subst batchLoop.simps) simp
      have "length srtArray - (i + B) < length srtArray - i" using True assms by simp
      from less[OF this, of "acc @ ?safe" evs1]
      obtain r evs' where run: "batchLoop v B prompt script srtArray tr (i + B) (acc @ ?safe) evs1 = Some (r, evs')"
        and ih: "\<forall>out. r = Inr out \<longrightarrow>
                 (\<exists>texts. length texts = ?m
                    \<and> out = (acc @ ?safe) @ concat (map2 reconcile texts
                          (map (\<lambda>k. slice_js srtArray (i + B + k * B) (i + B + k * B + B)) [0..<?m])))"
        by blast
      have len: "ceilDiv (length srtArray - i) B = Suc ?m"
        using ceilDiv_step[OF assms, of "length srtArray - i"] True by simp
      have unroll: "map (\<lambda>k. slice_js srtArray (i + k * B) (i + k * B + B)) [0..<Suc ?m]
            = slice_js srtArray i (i + B)
              # map (\<lambda>k. slice_js srtArray (i + B + k * B) (i + B + k * B + B)) [0..<?m]"
        by (simp add: map_upt_Suc ac_simps del: upt_Suc)
      have "\<forall>out. r = Inr out \<longrightarrow>
                 (\<exists>texts. length texts = Suc ?m
                    \<and> out = acc @ concat (map2 reconcile texts
                          (map (\<lambda>k. slice_js srtArray (i + k * B) (i + k * B + B)) [0..<Suc ?m])))"
      proof (intro allI impI)
        fix out assume "r = Inr out"
        with ih obtain texts where tl: "length texts = ?m"
          and out: "out = (acc @ ?safe) @ concat (map2 reconcile texts
                          (map (\<lambda>k. slice_js srtArray (i + B + k * B) (i + B + k * B + B)) [0..<?m]))"
          by blast
        have "length (t # texts) = Suc ?m" using tl by simp
        moreover have "out = acc @ concat (map2 reconcile (t # texts)
                          (map (\<lambda>k. slice_js srtArray (i + k * B) (i + k * B + B)) [0..<Suc ?m]))"
          unfolding unroll using out by simp
        ultimately show "\<exists>texts. length texts = Suc ?m
                    \<and> out = acc @ concat (map2 reconcile texts
                          (map (\<lambda>k. slice_js srtArray (i + k * B) (i + k * B + B)) [0..<Suc ?m]))"
          by blast
      qed
      then show ?thesis using step run len by simp
    qed
  qed
qed

lemma reconcile_frame:
  "map (\<lambda>e. e\<lparr>text := []\<rparr>) (reconcile t b) = map (\<lambda>e. e\<lparr>text := []\<rparr>) b"
proof (rule nth_equalityI)
  show "length (map (\<lambda>e. e\<lparr>text := []\<rparr>) (reconcile t b)) = length (map (\<lambda>e. e\<lparr>text := []\<rparr>) b)"
    by (simp add: length_reconcile)
next
  fix i assume "i < length (map (\<lambda>e. e\<lparr>text := []\<rparr>) (reconcile t b))"
  then have "i < length b" by (simp add: length_reconcile)
  then show "map (\<lambda>e. e\<lparr>text := []\<rparr>) (reconcile t b) ! i = map (\<lambda>e. e\<lparr>text := []\<rparr>) b ! i"
    by (simp add: reconcile_def length_safeBatch safeBatch_nth mergeItem_def)
qed

lemma map2_reconcile_frame:
  "length texts = length bs \<Longrightarrow>
   map (\<lambda>e. e\<lparr>text := []\<rparr>) (concat (map2 reconcile texts bs))
     = map (\<lambda>e. e\<lparr>text := []\<rparr>) (concat bs)"
  by (induction texts bs rule: list_induct2) (simp_all add: reconcile_frame)

lemmas run_defs = processSrt_def sampleInputs_def threeEntries_def limitedOnce_def textBody_def plainPrompt_def
  textsOnly_def processBatch_def callGeminiWithRetry_def callGeminiWithRetry_from.simps tryBlock_def extractText_def
  fetches_def ok_def waitTime_def ceilDiv_def slice_js_def textBlock_def reconcile_def safeBatch_def mergeItem_def finish_def
  batchLoop.simps Let_def

lemma sample_run:
  "processSrt AppJs plainPrompt threeEntries textsOnly limitedOnce sampleInputs
     = Some (Completed [entryOf (lit ''x''), entryOf (lit ''b''), entryOf (lit ''c'')]
               (lit [CHR ''x'', CHR 0x0A, CHR ''b'', CHR 0x0A, CHR ''c'']),
             [Fetch (plainPrompt 3 (lit ''script'') (textBlock (threeEntries []))),
              Sleep 20000,
              Fetch (plainPrompt 3 (lit ''script'') (textBlock (threeEntries [])))])"
  by (simp add: run_defs eval_defs)

lemma batchLoop_frame:
  assumes "0 < B"
    and "batchLoop v B prompt script srtArray tr 0 [] [] = Some (Inr out, evs)"
  shows "map (\<lambda>e. e\<lparr>text := []\<rparr>) out = map (\<lambda>e. e\<lparr>text := []\<rparr>) srtArray"
proof -
  let ?bs = "map (\<lambda>k. slice_js srtArray (k * B) (k * B + B)) [0..<ceilDiv (length srtArray) B]"
  from batchLoop_shape[OF assms(1), of v prompt script srtArray tr 0 "[]" "[]"] assms(2)
  obtain texts where tl: "length texts = length ?bs"
    and out: "out = concat (map2 reconcile texts ?bs)"
    by auto
  have "concat ?bs = take (ceilDiv (length srtArray) B * B) srtArray"
    by (rule concat_slices)
  also have "\<dots> = srtArray"
    using ceilDiv_upper[OF assms(1), of "length srtArray"] by simp
  finally have "concat ?bs = srtArray" .
  with map2_reconcile_frame[OF tl] out show ?thesis by simp
qed

lemma BATCH_SIZE_pos: "0 < BATCH_SIZE v"
  by (cases v) simp_all

lemma processSrt_total: "\<exists>res. processSrt v prompt fromSrt toSrt tr inp = Some res"
proof -
  have bl: "batchLoop v (BATCH_SIZE v) prompt script srtArray tr 0 [] [] \<noteq> None"
    for script and srtArray :: "'a entry_scheme list"
    using batchLoop_shape[OF BATCH_SIZE_pos, of v v prompt script srtArray tr 0 "[]" "[]"]
    by auto
  show ?thesis
  proof (cases "processSrt v prompt fromSrt toSrt tr inp")
    case None
    then have False
      by (auto simp: bl processSrt_def Let_def split: option.splits upload.splits if_splits)
    then show ?thesis ..
  next
    case (Some res)
    then show ?thesis by blast
  qed
qed

lemma finish_Completed:
  assumes "finish toSrt r = (Completed out final, evs)"
  shows "r = (Inr out, evs)"
proof (cases r)
  case (Pair a b)
  with assms show ?thesis by (cases a) (simp_all add: finish_def)
qed

lemma processSrt_completed:
  assumes "processSrt v prompt fromSrt toSrt tr inp = Some (Completed out final, evs)"
  shows "\<exists>fileText. srtFile inp = Some (Readable fileText)
           \<and> batchLoop v (BATCH_SIZE v) prompt (scriptText inp) (fromSrt fileText) tr 0 [] []
               = Some (Inr out, evs)"
  using assms
  by (auto simp: processSrt_def Let_def
           split: option.splits upload.splits if_splits dest: finish_Completed)

lemma processSrt_frame:
  assumes "processSrt v prompt fromSrt toSrt tr inp = Some (Completed out final, evs)"
    and "srtFile inp = Some (Readable fileText)"
  shows "map (\<lambda>e. e\<lparr>text := []\<rparr>) out = map (\<lambda>e. e\<lparr>text := []\<rparr>) (fromSrt fileText)"
proof -
  from processSrt_completed[OF assms(1)] assms(2)
  have "batchLoop v (BATCH_SIZE v) prompt (scriptText inp) (fromSrt fileText) tr 0 [] []
               = Some (Inr out, evs)"
    by auto
  from batchLoop_frame[OF BATCH_SIZE_pos this] show ?thesis .
qed

text \<open>
  C1 (count invariant). Whatever the response text, the reconciled batch has as many
  entries as the original batch. A run in which every request settles comes to an end,
  and when it completes, the processed sequence has as many entries as the decoded input
  sequence.
\<close>

theorem count_invariant:
  "length (reconcile resultText currentBatch) = length currentBatch
   \<and> (\<exists>res. processSrt v prompt fromSrt toSrt tr inp = Some res)
   \<and> (processSrt v prompt fromSrt toSrt tr inp = Some (Completed out final, evs) \<longrightarrow>
        (\<exists>fileText. srtFile inp = Some (Readable fileText)
           \<and> length out = length (fromSrt fileText)))"
proof (intro conjI impI)
  show "length (reconcile resultText currentBatch) = length currentBatch"
    by (rule length_reconcile)
  show "\<exists>res. processSrt v prompt fromSrt toSrt tr inp = Some res"
    by (rule processSrt_total)
next
  assume run: "processSrt v prompt fromSrt toSrt tr inp = Some (Completed out final, evs)"
  from processSrt_completed[OF run] obtain fileText
    where f: "srtFile inp = Some (Readable fileText)" by blast
  from processSrt_frame[OF run f]
  have "length (map (\<lambda>e. e\<lparr>text := []\<rparr>) out) = length (map (\<lambda>e. e\<lparr>text := []\<rparr>) (fromSrt fileText))"
    by simp
  then have "length out = length (fromSrt fileText)" by simp
  with f show "\<exists>fileText. srtFile inp = Some (Readable fileText)
           \<and> length out = length (fromSrt fileText)" by blast
qed

text \<open>
  C4 (order invariant). On a completed run the output entry at global position \<open>g\<close> is
  the input entry at position \<open>g\<close> with at most its text replaced: putting the original
  text back gives the original entry, so every other field, start and end time among
  them, is unchanged and the order is the original one.
\<close>

theorem order_invariant:
  assumes "processSrt v prompt fromSrt toSrt tr inp = Some (Completed out final, evs)"
    and "srtFile inp = Some (Readable fileText)"
  shows "length out = length (fromSrt fileText)
         \<and> (\<forall>g<length out.
               (out ! g)\<lparr>text := text (fromSrt fileText ! g)\<rparr> = fromSrt fileText ! g
               \<and> startTime (out ! g) = startTime (fromSrt fileText ! g)
               \<and> endTime (out ! g) = endTime (fromSrt fileText ! g))"
proof -
  let ?srt = "fromSrt fileText"
  let ?u = "\<lambda>e. e\<lparr>text := []\<rparr>"
  have fr: "map ?u out = map ?u ?srt" by (rule processSrt_frame[OF assms])
  then have "length (map ?u out) = length (map ?u ?srt)" by simp
  then have len: "length out = length ?srt" by simp
  have "\<forall>g<length out.
               (out ! g)\<lparr>text := text (?srt ! g)\<rparr> = ?srt ! g
               \<and> startTime (out ! g) = startTime (?srt ! g)
               \<and> endTime (out ! g) = endTime (?srt ! g)"
  proof (intro allI impI)
    fix g assume g: "g < length out"
    have "map ?u out ! g = map ?u ?srt ! g" using fr by simp
    then have eq: "?u (out ! g) = ?u (?srt ! g)" using g len by simp
    have "(out ! g)\<lparr>text := text (?srt ! g)\<rparr> = (?u (out ! g))\<lparr>text := text (?srt ! g)\<rparr>"
      by simp
    also have "\<dots> = (?u (?srt ! g))\<lparr>text := text (?srt ! g)\<rparr>" by (simp only: eq)
    also have "\<dots> = ?srt ! g" by simp
    finally have a: "(out ! g)\<lparr>text := text (?srt ! g)\<rparr> = ?srt ! g" .
    have "startTime (?u (out ! g)) = startTime (?u (?srt ! g))" by (simp only: eq)
    then have b: "startTime (out ! g) = startTime (?srt ! g)" by simp
    have "endTime (?u (out ! g)) = endTime (?u (?srt ! g))" by (simp only: eq)
    then have c: "endTime (out ! g) = endTime (?srt ! g)" by simp
    from a b c show "(out ! g)\<lparr>text := text (?srt ! g)\<rparr> = ?srt ! g
               \<and> startTime (out ! g) = startTime (?srt ! g)
               \<and> endTime (out ! g) = endTime (?srt ! g)" by simp
  qed
  with len show ?thesis by simp
qed

text \<open>
  C9 (empty input). When the guards pass and the decoded subtitle source has no entries,
  the run fails with the empty-input error and its trace of effects is empty: no request
  was sent.
\<close>

theorem empty_input_fails_before_any_request:
  assumes "apiKey inp \<noteq> []" and "srtFile inp = Some (Readable fileText)"
    and "scriptText inp \<noteq> []" and "fromSrt fileText = []"
  shows "processSrt v prompt fromSrt toSrt tr inp = Some (Failed EmptySrt, [])
         \<and> fetches (snd (the (processSrt v prompt fromSrt toSrt tr inp))) = 0"
  using assms by (simp add: processSrt_def fetches_def)

theorem empty_input_fails_before_any_request_witness:
  "processSrt AppJs plainPrompt noEntries textsOnly limitedOnce sampleInputs
     = Some (Failed EmptySrt, [])
   \<and> fetches (snd (the (processSrt AppJs plainPrompt noEntries textsOnly limitedOnce sampleInputs))) = 0"
  using empty_input_fails_before_any_request[of sampleInputs "lit ''srt''" noEntries
      AppJs plainPrompt textsOnly limitedOnce]
  by (simp add: sampleInputs_def noEntries_def lit_def fetches_def)





section \<open>Sample runs\<close>




theorem count_invariant_witness:
  "length (reconcile (lit ''1>>>x'') (threeEntries [])) = length (threeEntries [])
   \<and> (\<exists>res. processSrt AppJs plainPrompt threeEntries textsOnly limitedOnce sampleInputs = Some res)
   \<and> (\<exists>fileText. srtFile sampleInputs = Some (Readable fileText)
         \<and> length [entryOf (lit ''x''), entryOf (lit ''b''), entryOf (lit ''c'')]
             = length (threeEntries fileText))"
proof -
  note ci = count_invariant[of "lit ''1>>>x''" "threeEntries []" AppJs plainPrompt threeEntries
      textsOnly limitedOnce sampleInputs
      "[entryOf (lit ''x''), entryOf (lit ''b''), entryOf (lit ''c'')]"
      "lit [CHR ''x'', CHR 0x0A, CHR ''b'', CHR 0x0A, CHR ''c'']"
      "[Fetch (plainPrompt 3 (lit ''script'') (textBlock (threeEntries []))),
        Sleep 20000,
        Fetch (plainPrompt 3 (lit ''script'') (textBlock (threeEntries [])))]"]
  from ci have a: "length (reconcile (lit ''1>>>x'') (threeEntries [])) = length (threeEntries [])"
    by (rule conjunct1)
  from ci have b: "\<exists>res. processSrt AppJs plainPrompt threeEntries textsOnly limitedOnce sampleInputs = Some res"
    by (elim conjE)
  from ci sample_run have c: "\<exists>fileText. srtFile sampleInputs = Some (Readable fileText)
         \<and> length [entryOf (lit ''x''), entryOf (lit ''b''), entryOf (lit ''c'')]
             = length (threeEntries fileText)"
    by (elim conjE impE)
  from a b c show ?thesis by (intro conjI)
qed

lemma sample_file: "srtFile sampleInputs = Some (Readable (lit ''srt''))"
  by (simp add: sampleInputs_def)

theorem order_invariant_witness:
  "length [entryOf (lit ''x''), entryOf (lit ''b''), entryOf (lit ''c'')]
     = length (threeEntries (lit ''srt''))
   \<and> ([entryOf (lit ''x''), entryOf (lit ''b''), entryOf (lit ''c'')] ! 0)
        \<lparr>text := text (threeEntries (lit ''srt'') ! 0)\<rparr> = threeEntries (lit ''srt'') ! 0
   \<and> startTime ([entryOf (lit ''x''), entryOf (lit ''b''), entryOf (lit ''c'')] ! 0)
       = startTime (threeEntries (lit ''srt'') ! 0)
   \<and> endTime ([entryOf (lit ''x''), entryOf (lit ''b''), entryOf (lit ''c'')] ! 0)
       = endTime (threeEntries (lit ''srt'') ! 0)"
proof -
  note oi = order_invariant[OF sample_run sample_file]
  have z: "0 < length [entryOf (lit ''x''), entryOf (lit ''b''), entryOf (lit ''c'')]" by simp
  note len = oi[THEN conjunct1]
  note at0 = oi[THEN conjunct2, THEN spec, of 0, THEN mp, OF z]
  from len at0 show ?thesis by (rule conjI)
qed


section \<open>Resilient invoker: attempts, termination, backoff\<close>

lemma fetches_append: "fetches (xs @ ys) = fetches xs + fetches ys"
  by (simp add: fetches_def)

lemma fetches_tryBlock: "tryBlock retries i out evs = (fl, evs') \<Longrightarrow> fetches evs' = fetches evs"
  by (auto simp: tryBlock_def fetches_def split: outcome.splits if_splits body.splits)

lemma fetches_tryBlock_p0: "tryBlock_p0 retries i out evs = (fl, evs') \<Longrightarrow> fetches evs' = fetches evs"
  by (auto simp: tryBlock_p0_def fetches_def split: outcome.splits if_splits body.splits)

lemma tryBlock_Return:
  "tryBlock retries i out evs = (Return v, evs') \<Longrightarrow>
   \<exists>status data. out = Response status (JsonObject data) \<and> ok status \<and> extractText data = Return v"
  by (auto simp: tryBlock_def split: outcome.splits if_splits body.splits)

lemma attempts_bounded_from:
  "callGeminiWithRetry_from tr fullPrompt retries i evs = (r, evs') \<Longrightarrow>
   fetches evs' \<le> fetches evs + (retries - i)"
proof (induction tr fullPrompt retries i evs rule: callGeminiWithRetry_from.induct)
  case (1 tr fullPrompt retries i evs)
  show ?case
  proof (cases "i < retries")
    case False
    with "1.prems" show ?thesis by (simp add: callGeminiWithRetry_from.simps)
  next
    case True
    obtain fl evs1
      where tb: "tryBlock retries i (tr (fetches evs) fullPrompt) (evs @ [Fetch fullPrompt]) = (fl, evs1)"
      by (cases "tryBlock retries i (tr (fetches evs) fullPrompt) (evs @ [Fetch fullPrompt])") auto
    have f1: "fetches evs1 = Suc (fetches evs)"
      using fetches_tryBlock[OF tb] by (simp add: fetches_def)
    show ?thesis
    proof (cases fl)
      case (Return v)
      with "1.prems" True tb have "evs' = evs1"
        by (simp add: callGeminiWithRetry_from.simps[of tr fullPrompt retries i evs])
      with f1 True show ?thesis by simp
    next
      case Continue
      with "1.prems" True tb
      have "callGeminiWithRetry_from tr fullPrompt retries (i + 1) evs1 = (r, evs')"
        by (simp add: callGeminiWithRetry_from.simps[of tr fullPrompt retries i evs])
      from "1.IH"(1)[OF True tb[symmetric] _ this] Continue
      have "fetches evs' \<le> fetches evs1 + (retries - (i + 1))" by simp
      with f1 True show ?thesis by simp
    next
      case (Throw e)
      show ?thesis
      proof (cases "Suc i = retries")
        case last: True
        with "1.prems" True tb Throw have "evs' = evs1"
          by (simp add: callGeminiWithRetry_from.simps[of tr fullPrompt retries i evs])
        with f1 True show ?thesis by simp
      next
        case notlast: False
        with "1.prems" True tb Throw
        have "callGeminiWithRetry_from tr fullPrompt retries (i + 1) (evs1 @ [Sleep 5000]) = (r, evs')"
          by (simp add: callGeminiWithRetry_from.simps[of tr fullPrompt retries i evs])
        from "1.IH"(2)[OF True tb[symmetric] _ notlast this] Throw
        have "fetches evs' \<le> fetches (evs1 @ [Sleep 5000]) + (retries - (i + 1))" by simp
        with f1 True show ?thesis by (simp add: fetches_def)
      qed
    qed
  qed
qed

lemma attempts_bounded_p0_from:
  "callGeminiWithRetry_p0_from tr fullPrompt retries i evs = (r, evs') \<Longrightarrow>
   fetches evs' \<le> fetches evs + (retries - i)"
proof (induction tr fullPrompt retries i evs rule: callGeminiWithRetry_p0_from.induct)
  case (1 tr fullPrompt retries i evs)
  show ?case
  proof (cases "i < retries")
    case False
    with "1.prems" show ?thesis by (simp add: callGeminiWithRetry_p0_from.simps)
  next
    case True
    obtain fl evs1
      where tb: "tryBlock_p0 retries i (tr (fetches evs) fullPrompt) (evs @ [Fetch fullPrompt]) = (fl, evs1)"
      by (cases "tryBlock_p0 retries i (tr (fetches evs) fullPrompt) (evs @ [Fetch fullPrompt])") auto
    have f1: "fetches evs1 = Suc (fetches evs)"
      using fetches_tryBlock_p0[OF tb] by (simp add: fetches_def)
    show ?thesis
    proof (cases fl)
      case (Return v)
      with "1.prems" True tb have "evs' = evs1"
        by (simp add: callGeminiWithRetry_p0_from.simps[of tr fullPrompt retries i evs])
      with f1 True show ?thesis by simp
    next
      case Continue
      with "1.prems" True tb
      have "callGeminiWithRetry_p0_from tr fullPrompt retries (i + 1) evs1 = (r, evs')"
        by (simp add: callGeminiWithRetry_p0_from.simps[of tr fullPrompt retries i evs])
      from "1.IH"(1)[OF True tb[symmetric] _ this] Continue
      have "fetches evs' \<le> fetches evs1 + (retries - (i + 1))" by simp
      with f1 True show ?thesis by simp
    next
      case (Throw e)
      show ?thesis
      proof (cases "Suc i = retries")
        case last: True
        with "1.prems" True tb Throw have "evs' = evs1"
          by (simp add: callGeminiWithRetry_p0_from.simps[of tr fullPrompt retries i evs])
        with f1 True show ?thesis by simp
      next
        case notlast: False
        with "1.prems" True tb Throw
        have "callGeminiWithRetry_p0_from tr fullPrompt retries (i + 1) (evs1 @ [Sleep 5000]) = (r, evs')"
          by (simp add: callGeminiWithRetry_p0_from.simps[of tr fullPrompt retries i evs])
        from "1.IH"(2)[OF True tb[symmetric] _ notlast this] Throw
        have "fetches evs' \<le> fetches (evs1 @ [Sleep 5000]) + (retries - (i + 1))" by simp
        with f1 True show ?thesis by (simp add: fetches_def)
      qed
    qed
  qed
qed



lemma returns_only_after_success_from:
  "callGeminiWithRetry_from tr fullPrompt retries i evs = (Inr v, evs') \<Longrightarrow>
   \<exists>n status data. fetches evs \<le> n \<and> n < fetches evs'
      \<and> tr n fullPrompt = Response status (JsonObject data) \<and> ok status \<and> extractText data = Return v"
proof (induction tr fullPrompt retries i evs rule: callGeminiWithRetry_from.induct)
  case (1 tr fullPrompt retries i evs)
  show ?case
  proof (cases "i < retries")
    case False
    with "1.prems" show ?thesis by (simp add: callGeminiWithRetry_from.simps)
  next
    case True
    obtain fl evs1
      where tb: "tryBlock retries i (tr (fetches evs) fullPrompt) (evs @ [Fetch fullPrompt]) = (fl, evs1)"
      by (cases "tryBlock retries i (tr (fetches evs) fullPrompt) (evs @ [Fetch fullPrompt])") auto
    have f1: "fetches evs1 = Suc (fetches evs)"
      using fetches_tryBlock[OF tb] by (simp add: fetches_def)
    show ?thesis
    proof (cases fl)
      case (Return w)
      with "1.prems" True tb have eq: "evs' = evs1" "w = v"
        by (simp_all add: callGeminiWithRetry_from.simps[of tr fullPrompt retries i evs])
      from tryBlock_Return[OF tb[unfolded Return]] eq
      obtain status data where "tr (fetches evs) fullPrompt = Response status (JsonObject data)"
        "ok status" "extractText data = Return v" by auto
      moreover have "fetches evs \<le> fetches evs" "fetches evs < fetches evs'"
        using f1 eq by simp_all
      ultimately show ?thesis by blast
    next
      case Continue
      with "1.prems" True tb
      have "callGeminiWithRetry_from tr fullPrompt retries (i + 1) evs1 = (Inr v, evs')"
        by (simp add: callGeminiWithRetry_from.simps[of tr fullPrompt retries i evs])
      from "1.IH"(1)[OF True tb[symmetric] _ this] Continue
      obtain n status data where "fetches evs1 \<le> n" "n < fetches evs'"
        "tr n fullPrompt = Response status (JsonObject data)" "ok status" "extractText data = Return v"
        by auto
      moreover then have "fetches evs \<le> n" using f1 by simp
      ultimately show ?thesis by blast
    next
      case (Throw e)
      show ?thesis
      proof (cases "Suc i = retries")
        case last: True
        with "1.prems" True tb Throw show ?thesis
          by (simp add: callGeminiWithRetry_from.simps[of tr fullPrompt retries i evs])
      next
        case notlast: False
        with "1.prems" True tb Throw
        have "callGeminiWithRetry_from tr fullPrompt retries (i + 1) (evs1 @ [Sleep 5000]) = (Inr v, evs')"
          by (simp add: callGeminiWithRetry_from.simps[of tr fullPrompt retries i evs])
        from "1.IH"(2)[OF True tb[symmetric] _ notlast this] Throw
        obtain n status data where "fetches (evs1 @ [Sleep 5000]) \<le> n" "n < fetches evs'"
          "tr n fullPrompt = Response status (JsonObject data)" "ok status" "extractText data = Return v"
          by auto
        moreover then have "fetches evs \<le> n" using f1 by (simp add: fetches_def)
        ultimately show ?thesis by blast
      qed
    qed
  qed
qed

lemma attempts_bounded:
  "callGeminiWithRetry tr fullPrompt retries evs = (r, evs') \<Longrightarrow>
   fetches evs' \<le> fetches evs + retries"
  using attempts_bounded_from[of tr fullPrompt retries 0 evs r evs']
  by (simp add: callGeminiWithRetry_def)

lemma attempts_bounded_p0:
  "callGeminiWithRetry_p0 tr fullPrompt retries evs = (r, evs') \<Longrightarrow>
   fetches evs' \<le> fetches evs + retries"
  using attempts_bounded_p0_from[of tr fullPrompt retries 0 evs r evs']
  by (simp add: callGeminiWithRetry_p0_def)

lemma returns_only_after_success:
  "callGeminiWithRetry tr fullPrompt retries evs = (Inr v, evs') \<Longrightarrow>
   \<exists>n status data. fetches evs \<le> n \<and> n < fetches evs'
      \<and> tr n fullPrompt = Response status (JsonObject data) \<and> ok status \<and> extractText data = Return v"
  using returns_only_after_success_from[of tr fullPrompt retries 0 evs v evs']
  by (simp add: callGeminiWithRetry_def)

lemma waitTime_strict_mono: "j < k \<Longrightarrow> waitTime j < waitTime k"
  by (simp add: waitTime_def)

lemma tryBlock_rate_limited:
  "snd (tryBlock retries i (Response 429 body) evs) = evs @ [Sleep (waitTime i)]"
  by (simp add: tryBlock_def)

lemma tryBlock_p0_rate_limited:
  "snd (tryBlock_p0 retries i (Response 429 body) evs) = evs @ [Sleep 20000]"
  by (simp add: tryBlock_p0_def)

lemmas p0_defs =
  callGeminiWithRetry_p0_def callGeminiWithRetry_p0_from.simps tryBlock_p0_def extractText_p0_def
  alwaysLimited_def limitedTwice_def

lemmas invoker_defs =
  callGeminiWithRetry_def callGeminiWithRetry_from.simps tryBlock_def extractText_def
  fetches_def ok_def waitTime_def textBody_def p0_defs

text \<open>
  C7 (retry bound, terminal error). Both invokers make at most \<open>retries\<close> requests
  (\<open>attempts_bounded\<close>, \<open>attempts_bounded_p0\<close>), and the invoker of \<open>App.js\<close> returns
  only after a 2xx attempt that carried candidate content (\<open>returns_only_after_success\<close>).
  The invoker of \<open>part_000\<close> breaks the second half: rate-limited on all three attempts,
  it leaves the loop and returns \<open>undefined\<close> instead of raising.
\<close>

theorem part000_returns_undefined_when_rate_limited:
  "callGeminiWithRetry_p0 alwaysLimited (lit ''prompt'') 3 []
     = (Inr None,
        [Fetch (lit ''prompt''), Sleep 20000,
         Fetch (lit ''prompt''), Sleep 20000,
         Fetch (lit ''prompt''), Sleep 20000])"
  by (simp add: invoker_defs)

lemma appjs_throws_when_rate_limited:
  "callGeminiWithRetry alwaysLimited (lit ''prompt'') 3 []
     = (Inl RateLimitExhausted,
        [Fetch (lit ''prompt''), Sleep 20000,
         Fetch (lit ''prompt''), Sleep 30000,
         Fetch (lit ''prompt''), Sleep 40000])"
  by (simp add: invoker_defs)

text \<open>
  C8 (rate-limit backoff). In \<open>App.js\<close> the wait after a 429 on attempt \<open>i\<close> is
  \<open>waitTime i\<close>, strictly increasing in \<open>i\<close> (\<open>tryBlock_rate_limited\<close>,
  \<open>waitTime_strict_mono\<close>). In \<open>part_000\<close> it is the constant 20000: rate-limited on
  attempts 0 and 1 and answered on attempt 2, the invoker sleeps 20000 ms both times.
\<close>

theorem part000_backoff_is_constant:
  "callGeminiWithRetry_p0 limitedTwice (lit ''prompt'') 3 []
     = (Inr (Some (lit ''1>>>x'')),
        [Fetch (lit ''prompt''), Sleep 20000,
         Fetch (lit ''prompt''), Sleep 20000,
         Fetch (lit ''prompt'')])"
  by (simp add: invoker_defs)

lemma appjs_backoff_increases:
  "callGeminiWithRetry limitedTwice (lit ''prompt'') 5 []
     = (Inr (Some (lit ''1>>>x'')),
        [Fetch (lit ''prompt''), Sleep 20000,
         Fetch (lit ''prompt''), Sleep 30000,
         Fetch (lit ''prompt'')])"
  by (simp add: invoker_defs)

lemma part000_run_fails_with_TypeError:
  "\<exists>evs. processSrt Part000 plainPrompt threeEntries textsOnly alwaysLimited sampleInputs
     = Some (Failed TypeError, evs)"
  by (simp add: run_defs eval_defs p0_defs)

end
